theory Spec2Isabelle
  imports Main "HOL-Library.Word" "HOL-Library.AList"
begin

section \<open>The batch synchronizer of synchronizer/batches.go\<close>

text \<open>
  A shallow embedding of \<^verbatim>\<open>BatchSynchronizer\<close>: the event handler
  (\<^verbatim>\<open>handleSequenceBatches\<close>, \<^verbatim>\<open>exists\<close>, \<^verbatim>\<open>resolveAndStore\<close>,
  \<^verbatim>\<open>store\<close>, \<^verbatim>\<open>rollback\<close>), the committee resolution (\<^verbatim>\<open>resolveCommittee\<close>,
  \<^verbatim>\<open>resolve\<close>, \<^verbatim>\<open>resolveWithMember\<close>) and the start-block computation
  (\<^verbatim>\<open>getStartBlock\<close>). Mutation of the receiver and every call that leaves the
  process are explicit: each function takes the state and returns the new one, and each
  call to a collaborator (database, chain client, committee member) is appended to a
  trace.
\<close>

subsection \<open>Data\<close>

type_synonym address = "160 word"  \<comment> \<open>common.Address, 20 bytes\<close>
type_synonym hash = "256 word"  \<comment> \<open>common.Hash, 32 bytes\<close>
type_synonym uint64 = "64 word"
type_synonym bytes = "8 word list"

text \<open>
  The error values the file creates itself are the two RPC errors with code
  \<^verbatim>\<open>types.NotFoundErrorCode\<close>; every other error comes out of a collaborator and is
  passed on unchanged.
\<close>

datatype error =
    DataNotFound  \<comment> \<open>NewRPCError(NotFoundErrorCode, "data not found")\<close>
  | NoDataFoundForKey hash  \<comment> \<open>NewRPCError(NotFoundErrorCode, "no data found for key %v", key)\<close>
  | External string  \<comment> \<open>an error returned by the database, the chain client or a member client\<close>

record DataCommitteeMember =
  Addr :: address
  URL :: string

record OffChainData =
  Key :: hash
  Value :: bytes

definition zeroMember :: DataCommitteeMember where
  "zeroMember = \<lparr>Addr = 0, URL = []\<rparr>"

definition zeroOffChainData :: OffChainData where
  "zeroOffChainData = \<lparr>Key = 0, Value = []\<rparr>"

record RawEvent =
  RawData :: bytes  \<comment> \<open>event.Raw.Data\<close>
  RawBlockNumber :: uint64  \<comment> \<open>event.Raw.BlockNumber\<close>

text \<open>
  The storage backend as the synchronizer sees it: the payload table and the single
  progress record. A transaction collects writes that become visible at commit.
\<close>

record DB =
  offchain_data :: "hash \<rightharpoonup> bytes"
  last_processed_block :: uint64

record Tx =
  tx_data :: "OffChainData list"
  tx_block :: "uint64 option"

datatype call =
    DbExists hash
  | DbGetLastProcessedBlock
  | DbBeginStateTransaction
  | DbStoreOffChainData "OffChainData list"
  | DbStoreLastProcessedBlock uint64
  | DbCommit
  | DbRollback
  | EthGetCurrentDataCommittee
  | RpcGetOffChainData string hash  \<comment> \<open>endpoint URL and key\<close>

datatype logline = Errorf string | Warnf string

text \<open>
  The state: the fields \<^verbatim>\<open>self\<close> and \<^verbatim>\<open>committee\<close> of the struct (the Go map is an
  association list with distinct keys, written only through \<open>AList.update\<close> and
  \<open>AList.delete\<close>), the contents of the database behind \<^verbatim>\<open>bs.db\<close>, the number of
  permutations drawn from the global random source, the trace of collaborator calls
  (oldest first) and the log lines written.
\<close>

record state =
  self :: address
  committee :: "(address \<times> DataCommitteeMember) list"
  db :: DB
  rng :: nat
  calls :: "call list"
  logs :: "logline list"

text \<open>
  The collaborators, none of which is defined in batches.go, are parameters. Each answer
  may depend on the moment of the call, \<open>now\<close>, the number of collaborator calls made
  before it, so a member or the database may answer differently each time it is asked.
  \<^item> \<open>GetCurrentDataCommittee\<close>: the chain client's committee read, in chain order;
  \<^item> \<open>GetOffChainData\<close>: \<^verbatim>\<open>client.New(url).GetOffChainData(ctx, key)\<close>, returning
    Go's pair of bytes and error;
  \<^item> \<open>randPerm\<close>: \<^verbatim>\<open>rand.Perm(n)\<close> at the given draw of the global source;
  \<^item> \<open>dbFault\<close>: the error, if any, of the storage operation issued at that moment;
  \<^item> \<open>decodeBatches\<close>: the ABI and JSON decoding of the call data into the batches'
    \<^verbatim>\<open>TransactionsHash\<close> fields (lines 257 to 282 of parseEvent).
\<close>

record env =
  GetCurrentDataCommittee :: "nat \<Rightarrow> error + DataCommitteeMember list"
  GetOffChainData :: "nat \<Rightarrow> string \<Rightarrow> hash \<Rightarrow> bytes \<times> error option"
  randPerm :: "nat \<Rightarrow> nat \<Rightarrow> nat list"
  dbFault :: "nat \<Rightarrow> error option"
  decodeBatches :: "bytes \<Rightarrow> error + hash list"

definition now :: "state \<Rightarrow> nat" where
  "now s = length (calls s)"

definition called :: "call \<Rightarrow> state \<Rightarrow> state" where
  "called c s = s\<lparr>calls := calls s @ [c]\<rparr>"

definition logged :: "logline \<Rightarrow> state \<Rightarrow> state" where
  "logged l s = s\<lparr>logs := logs s @ [l]\<rparr>"

text \<open>\<^verbatim>\<open>rand.Perm(n)\<close> returns a permutation of \<open>0, ..., n - 1\<close>.\<close>

definition isPerm :: "nat list \<Rightarrow> nat \<Rightarrow> bool" where
  "isPerm p n = (sort p = [0..<n])"

subsection \<open>The storage backend\<close>

text \<open>
  Modelled from the spec: the package db (\<^verbatim>\<open>Exists\<close>, \<^verbatim>\<open>GetLastProcessedBlock\<close>,
  \<^verbatim>\<open>BeginStateTransaction\<close>, \<^verbatim>\<open>StoreOffChainData\<close>, \<^verbatim>\<open>StoreLastProcessedBlock\<close>)
  and the transaction's \<^verbatim>\<open>Commit\<close> and \<^verbatim>\<open>Rollback\<close> are not part of batches.go. The
  spec gives a payload table keyed by content key, whose entries are immutable once
  stored, a single progress record, an existence probe outside any transaction, a read
  of the progress value, and transactions with begin, commit and rollback whose writes
  become visible together at commit and not at all otherwise. An operation fails when
  \<open>dbFault\<close> says so at its moment; a failed read returns Go's zero value with the error.
\<close>

definition Exists :: "env \<Rightarrow> hash \<Rightarrow> state \<Rightarrow> bool \<times> state" where
  "Exists e key s = (offchain_data (db s) key \<noteq> None, called (DbExists key) s)"

definition GetLastProcessedBlock :: "env \<Rightarrow> state \<Rightarrow> (uint64 \<times> error option) \<times> state" where
  "GetLastProcessedBlock e s =
     (case dbFault e (now s) of
        Some err \<Rightarrow> ((0, Some err), called DbGetLastProcessedBlock s)
      | None \<Rightarrow> ((last_processed_block (db s), None), called DbGetLastProcessedBlock s))"

definition BeginStateTransaction :: "env \<Rightarrow> state \<Rightarrow> (error + Tx) \<times> state" where
  "BeginStateTransaction e s =
     (case dbFault e (now s) of
        Some err \<Rightarrow> (Inl err, called DbBeginStateTransaction s)
      | None \<Rightarrow> (Inr \<lparr>tx_data = [], tx_block = None\<rparr>, called DbBeginStateTransaction s))"

definition StoreOffChainData :: "env \<Rightarrow> OffChainData list \<Rightarrow> Tx \<Rightarrow> state \<Rightarrow> (error + Tx) \<times> state" where
  "StoreOffChainData e data dbTx s =
     (case dbFault e (now s) of
        Some err \<Rightarrow> (Inl err, called (DbStoreOffChainData data) s)
      | None \<Rightarrow> (Inr (dbTx\<lparr>tx_data := tx_data dbTx @ data\<rparr>), called (DbStoreOffChainData data) s))"

definition StoreLastProcessedBlock :: "env \<Rightarrow> uint64 \<Rightarrow> Tx \<Rightarrow> state \<Rightarrow> (error + Tx) \<times> state" where
  "StoreLastProcessedBlock e block dbTx s =
     (case dbFault e (now s) of
        Some err \<Rightarrow> (Inl err, called (DbStoreLastProcessedBlock block) s)
      | None \<Rightarrow> (Inr (dbTx\<lparr>tx_block := Some block\<rparr>), called (DbStoreLastProcessedBlock block) s))"

fun insertAll :: "OffChainData list \<Rightarrow> (hash \<rightharpoonup> bytes) \<Rightarrow> (hash \<rightharpoonup> bytes)" where
  "insertAll [] t = t"
| "insertAll (d # ds) t =
     insertAll ds (if t (Key d) \<noteq> None then t else t(Key d \<mapsto> Value d))"

definition applyTx :: "Tx \<Rightarrow> DB \<Rightarrow> DB" where
  "applyTx dbTx d =
     \<lparr>offchain_data = insertAll (tx_data dbTx) (offchain_data d),
      last_processed_block =
        (case tx_block dbTx of None \<Rightarrow> last_processed_block d | Some b \<Rightarrow> b)\<rparr>"

definition Commit :: "env \<Rightarrow> Tx \<Rightarrow> state \<Rightarrow> error option \<times> state" where
  "Commit e dbTx s =
     (case dbFault e (now s) of
        Some err \<Rightarrow> (Some err, called DbCommit s)
      | None \<Rightarrow> (None, (called DbCommit s)\<lparr>db := applyTx dbTx (db s)\<rparr>))"

definition Rollback :: "env \<Rightarrow> Tx \<Rightarrow> state \<Rightarrow> error option \<times> state" where
  "Rollback e dbTx s = (dbFault e (now s), called DbRollback s)"

subsection \<open>The committee cache\<close>

text \<open>
  \<^verbatim>\<open>resolveCommittee\<close>, lines 56 to 72: a fresh map of the chain's members other than
  \<^verbatim>\<open>self\<close>; a failed read leaves the cache as it was.
\<close>

fun collectCommittee ::
  "address \<Rightarrow> DataCommitteeMember list \<Rightarrow> (address \<times> DataCommitteeMember) list
   \<Rightarrow> (address \<times> DataCommitteeMember) list" where
  "collectCommittee me [] c = c"
| "collectCommittee me (member # members) c =
     collectCommittee me members
       (if me \<noteq> Addr member then AList.update (Addr member) member c else c)"

definition resolveCommittee :: "env \<Rightarrow> state \<Rightarrow> error option \<times> state" where
  "resolveCommittee e s =
     (case GetCurrentDataCommittee e (now s) of
        Inl err \<Rightarrow> (Some err, called EthGetCurrentDataCommittee s)
      | Inr members \<Rightarrow>
          (None, (called EthGetCurrentDataCommittee s)
                   \<lparr>committee := collectCommittee (self s) members []\<rparr>))"

subsection \<open>Resolution\<close>

text \<open>
  \<^verbatim>\<open>resolveWithMember\<close>, lines 238 to 254. An empty answer replaces whatever error the
  client returned by the not-found error; a non-empty answer is paired with the requested
  key and returned with the client's error as it is.
\<close>

definition resolveWithMember ::
  "env \<Rightarrow> hash \<Rightarrow> DataCommitteeMember \<Rightarrow> state \<Rightarrow> (OffChainData \<times> error option) \<times> state" where
  "resolveWithMember e key member s =
     (let (bs, err) = GetOffChainData e (now s) (URL member) key;
          err = (if length bs = 0 then Some DataNotFound else err);
          data = (if length bs > 0 then \<lparr>Key = key, Value = bs\<rparr> else zeroOffChainData)
      in ((data, err), called (RpcGetOffChainData (URL member) key) s))"

text \<open>
  The loop of \<^verbatim>\<open>resolve\<close>, lines 225 to 235, over the members in the order of the
  permutation: a member whose query fails is logged and deleted from the cache, the first
  one that succeeds ends the loop, and running out of members is the not-found error.
\<close>

fun resolveLoop ::
  "env \<Rightarrow> hash \<Rightarrow> DataCommitteeMember list \<Rightarrow> state \<Rightarrow> (error + OffChainData) \<times> state" where
  "resolveLoop e key [] s = (Inl (NoDataFoundForKey key), s)"
| "resolveLoop e key (member # rest) s =
     (case resolveWithMember e key member s of
        ((val, Some err), s') \<Rightarrow>
          resolveLoop e key rest
            ((logged (Warnf ''resolve member %v failed, removing from local committee cache: %v'') s')
               \<lparr>committee := AList.delete (Addr member) (committee s')\<rparr>)
      | ((val, None), s') \<Rightarrow> (Inr val, s'))"

text \<open>
  Lines 219 to 222: \<^verbatim>\<open>make([]DataCommitteeMember, len(bs.committee))\<close> allocates a
  slice that already holds \<open>len\<close> zero-valued members, and \<^verbatim>\<open>append\<close> puts the cache's
  members after them. Go leaves the iteration order of a map open; the model takes the
  order of the association list, and the permutation applied afterwards ranges over
  every order anyway.
\<close>

definition snapshot :: "state \<Rightarrow> DataCommitteeMember list" where
  "snapshot s = replicate (length (committee s)) zeroMember @ map snd (committee s)"

definition visitOrder :: "env \<Rightarrow> state \<Rightarrow> DataCommitteeMember list" where
  "visitOrder e s = map (\<lambda>r. snapshot s ! r) (randPerm e (rng s) (length (snapshot s)))"

text \<open>Lines 212 to 217: an empty cache is refreshed before anything else.\<close>

definition refreshIfEmpty :: "env \<Rightarrow> state \<Rightarrow> error option \<times> state" where
  "refreshIfEmpty e s = (if length (committee s) = 0 then resolveCommittee e s else (None, s))"

text \<open>\<^verbatim>\<open>resolve\<close>, lines 211 to 236.\<close>

definition resolve :: "env \<Rightarrow> hash \<Rightarrow> state \<Rightarrow> (error + OffChainData) \<times> state" where
  "resolve e key s =
     (case refreshIfEmpty e s of
        (Some err, s1) \<Rightarrow> (Inl err, s1)
      | (None, s1) \<Rightarrow> resolveLoop e key (visitOrder e s1) (s1\<lparr>rng := Suc (rng s1)\<rparr>))"

subsection \<open>Storing\<close>

text \<open>\<^verbatim>\<open>rollback\<close>, lines 205 to 209: a failed rollback is logged and nothing else.\<close>

definition rollback :: "env \<Rightarrow> error \<Rightarrow> Tx \<Rightarrow> state \<Rightarrow> state" where
  "rollback e err dbTx s =
     (case Rollback e dbTx s of
        (Some txErr, s') \<Rightarrow>
          logged (Errorf ''failed to roll back transaction after error %v : %v'') s'
      | (None, s') \<Rightarrow> s')"

text \<open>\<^verbatim>\<open>store\<close>, lines 181 to 203.\<close>

definition store :: "env \<Rightarrow> uint64 \<Rightarrow> OffChainData list \<Rightarrow> state \<Rightarrow> error option \<times> state" where
  "store e block data s =
     (case BeginStateTransaction e s of
        (Inl err, s1) \<Rightarrow> (Some err, s1)
      | (Inr dbTx, s1) \<Rightarrow>
          (case StoreOffChainData e data dbTx s1 of
             (Inl err, s2) \<Rightarrow> (Some err, rollback e err dbTx s2)
           | (Inr dbTx2, s2) \<Rightarrow>
               (case StoreLastProcessedBlock e block dbTx2 s2 of
                  (Inl err, s3) \<Rightarrow> (Some err, rollback e err dbTx2 s3)
                | (Inr dbTx3, s3) \<Rightarrow>
                    (case Commit e dbTx3 s3 of
                       (Some err, s4) \<Rightarrow> (Some err, s4)
                     | (None, s4) \<Rightarrow> (None, s4)))))"

text \<open>
  \<^verbatim>\<open>resolveAndStore\<close>, lines 169 to 179: the loop returns at the first key that does
  not resolve; \<^verbatim>\<open>store\<close> is reached only after the last key.
\<close>

fun resolveKeys ::
  "env \<Rightarrow> hash list \<Rightarrow> OffChainData list \<Rightarrow> state \<Rightarrow> (error + OffChainData list) \<times> state" where
  "resolveKeys e [] data s = (Inr data, s)"
| "resolveKeys e (key # keys) data s =
     (case resolve e key s of
        (Inl err, s') \<Rightarrow> (Inl err, s')
      | (Inr val, s') \<Rightarrow> resolveKeys e keys (data @ [val]) s')"

definition resolveAndStore :: "env \<Rightarrow> uint64 \<Rightarrow> hash list \<Rightarrow> state \<Rightarrow> error option \<times> state" where
  "resolveAndStore e block keys s =
     (case resolveKeys e keys [] s of
        (Inl err, s') \<Rightarrow> (Some err, s')
      | (Inr data, s') \<Rightarrow> store e block data s')"

subsection \<open>Handling an event\<close>

text \<open>
  \<^verbatim>\<open>parseEvent\<close>, lines 256 to 284: the block number of the raw event and one key per
  batch, in batch order, or the decoder's error.
\<close>

definition parseEvent :: "env \<Rightarrow> RawEvent \<Rightarrow> error + (uint64 \<times> hash list)" where
  "parseEvent e event =
     (case decodeBatches e (RawData event) of
        Inl err \<Rightarrow> Inl err
      | Inr keys \<Rightarrow> Inr (RawBlockNumber event, keys))"

text \<open>\<^verbatim>\<open>exists\<close>, lines 163 to 167.\<close>

definition exists :: "env \<Rightarrow> hash \<Rightarrow> state \<Rightarrow> bool \<times> state" where
  "exists e key s = Exists e key s"

text \<open>The loop of lines 155 to 159, collecting the keys whose probe answers false.\<close>

fun collectMissing :: "env \<Rightarrow> hash list \<Rightarrow> hash list \<Rightarrow> state \<Rightarrow> hash list \<times> state" where
  "collectMissing e [] missing s = (missing, s)"
| "collectMissing e (key # keys) missing s =
     (case exists e key s of
        (found, s') \<Rightarrow> collectMissing e keys (if \<not> found then missing @ [key] else missing) s')"

definition handleSequenceBatches :: "env \<Rightarrow> RawEvent \<Rightarrow> state \<Rightarrow> error option \<times> state" where
  "handleSequenceBatches e event s =
     (case parseEvent e event of
        Inl err \<Rightarrow> (Some err, s)
      | Inr (block, keys) \<Rightarrow>
          (case collectMissing e keys [] s of
             (missing, s') \<Rightarrow> resolveAndStore e block missing s'))"

subsection \<open>The start block\<close>

text \<open>\<^verbatim>\<open>getStartBlock\<close>, lines 128 to 140.\<close>

definition getStartBlock :: "env \<Rightarrow> state \<Rightarrow> (uint64 \<times> error option) \<times> state" where
  "getStartBlock e s =
     (case GetLastProcessedBlock e s of
        ((start, err), s1) \<Rightarrow>
          (let s2 = (if err \<noteq> None
                     then logged (Errorf ''error retrieving last processed block, starting from 0: %v'') s1
                     else s1);
               start = (if start > 0 then start - 1 else start)
           in ((start, err), s2)))"

subsection \<open>Notions used in the statements\<close>

text \<open>
  A member fails a key at moment \<open>t\<close> when its client returns no bytes or an error:
  the two cases in which \<^verbatim>\<open>resolveWithMember\<close> returns an error.
\<close>

definition memberFails :: "env \<Rightarrow> nat \<Rightarrow> hash \<Rightarrow> DataCommitteeMember \<Rightarrow> bool" where
  "memberFails e t key member =
     (case GetOffChainData e t (URL member) key of
        (bs, err) \<Rightarrow> length bs = 0 \<or> err \<noteq> None)"

text \<open>The line logged when a member is dropped.\<close>

definition warnEvict :: logline where
  "warnEvict = Warnf ''resolve member %v failed, removing from local committee cache: %v''"

text \<open>The query sent to a member.\<close>

definition query :: "hash \<Rightarrow> DataCommitteeMember \<Rightarrow> call" where
  "query key member = RpcGetOffChainData (URL member) key"

text \<open>The cache's keys are its members' addresses, as \<^verbatim>\<open>resolveCommittee\<close> builds it.\<close>

definition keyedByAddr :: "(address \<times> DataCommitteeMember) list \<Rightarrow> bool" where
  "keyedByAddr c = list_all (\<lambda>(a, member). a = Addr member) c"

text \<open>The calls that open, fill or close a storage transaction.\<close>

fun isTxCall :: "call \<Rightarrow> bool" where
  "isTxCall DbBeginStateTransaction = True"
| "isTxCall (DbStoreOffChainData data) = True"
| "isTxCall (DbStoreLastProcessedBlock block) = True"
| "isTxCall DbCommit = True"
| "isTxCall DbRollback = True"
| "isTxCall c = False"

text \<open>The calls that go to the network: to the chain or to a committee member.\<close>

fun isNetworkCall :: "call \<Rightarrow> bool" where
  "isNetworkCall EthGetCurrentDataCommittee = True"
| "isNetworkCall (RpcGetOffChainData url key) = True"
| "isNetworkCall c = False"

subsection \<open>Example inputs\<close>

text \<open>
  Two committee members, a database that holds the payload of key 5 and has processed
  block 100, and collaborators that answer the same way at every moment: member B has
  the payload of every key, member A is down, the chain reports A and B, the database
  never fails, the permutation is the identity, and the event references keys 5 and 6.
\<close>

definition exMemberA :: DataCommitteeMember where
  "exMemberA = \<lparr>Addr = 1, URL = ''http://a''\<rparr>"

definition exMemberB :: DataCommitteeMember where
  "exMemberB = \<lparr>Addr = 2, URL = ''http://b''\<rparr>"

definition exState :: state where
  "exState =
     \<lparr>self = 9, committee = [(1, exMemberA), (2, exMemberB)],
      db = \<lparr>offchain_data = [5 \<mapsto> [1]], last_processed_block = 100\<rparr>,
      rng = 0, calls = [], logs = []\<rparr>"

definition exEnv :: env where
  "exEnv =
     \<lparr>GetCurrentDataCommittee = (\<lambda>t. Inr [exMemberA, exMemberB]),
      GetOffChainData =
        (\<lambda>t u k. if u = ''http://b'' then ([7], None) else ([], Some (External ''down''))),
      randPerm = (\<lambda>g n. [0..<n]),
      dbFault = (\<lambda>t. None),
      decodeBatches = (\<lambda>d. Inr [5, 6])\<rparr>"

definition exPayload :: OffChainData where
  "exPayload = \<lparr>Key = 6, Value = [7]\<rparr>"

text \<open>The same collaborators with a database whose fourth operation fails.\<close>

definition exEnvCommitFails :: env where
  "exEnvCommitFails =
     exEnv\<lparr>dbFault := (\<lambda>t. if t = 3 then Some (External ''commit failed'') else None)\<rparr>"

text \<open>Members that have no payload: A fails, every other endpoint answers with no bytes.\<close>

definition exEnvNoData :: env where
  "exEnvNoData =
     exEnv\<lparr>GetOffChainData :=
       (\<lambda>t u k. if u = ''http://a'' then ([], Some (External ''down'')) else ([], None))\<rparr>"

text \<open>An event of block 101, and a decoder that finds the stored key 5 only.\<close>

definition exEvent :: RawEvent where
  "exEvent = \<lparr>RawData = [], RawBlockNumber = 101\<rparr>"

definition exEnvKnown :: env where
  "exEnvKnown = exEnv\<lparr>decodeBatches := (\<lambda>d. Inr [5])\<rparr>"

text \<open>The same collaborators with a database whose first operation times out.\<close>

definition exEnvReadFails :: env where
  "exEnvReadFails =
     exEnv\<lparr>dbFault := (\<lambda>t. if t = 0 then Some (External ''timeout'') else None)\<rparr>"

section \<open>Properties\<close>

subsection \<open>Basic facts\<close>

lemma called_simps [simp]:
  "calls (called c s) = calls s @ [c]" "db (called c s) = db s"
  "committee (called c s) = committee s" "logs (called c s) = logs s"
  "rng (called c s) = rng s" "self (called c s) = self s"
  "now (called c s) = Suc (now s)"
  by (simp_all add: called_def now_def)

lemma logged_simps [simp]:
  "calls (logged l s) = calls s" "db (logged l s) = db s"
  "committee (logged l s) = committee s" "logs (logged l s) = logs s @ [l]"
  "rng (logged l s) = rng s" "self (logged l s) = self s"
  "now (logged l s) = now s"
  by (simp_all add: logged_def now_def)

subsection \<open>The start block: C8 and C9\<close>

text \<open>
  C8. When the read of the progress record succeeds and the stored value is \<open>N\<close>,
  \<^verbatim>\<open>getStartBlock\<close> returns \<open>N - 1\<close> for \<open>N > 0\<close> (as numbers, without wrap-around)
  and 0 for \<open>N = 0\<close>, with no error.
\<close>

theorem getStartBlock_recomputes:
  assumes "dbFault e (now s) = None"
  shows "fst (getStartBlock e s) =
           (if last_processed_block (db s) > 0 then last_processed_block (db s) - 1 else 0, None)
         \<and> (0 < last_processed_block (db s) \<longrightarrow>
              unat (fst (fst (getStartBlock e s))) = unat (last_processed_block (db s)) - 1)
         \<and> (last_processed_block (db s) = 0 \<longrightarrow> fst (fst (getStartBlock e s)) = 0)"
proof -
  let ?n = "last_processed_block (db s)"
  have r: "fst (getStartBlock e s) = (if ?n > 0 then ?n - 1 else 0, None)"
    using assms
    by (auto simp add: getStartBlock_def GetLastProcessedBlock_def word_greater_zero_iff)
  have "unat (?n - 1) = unat ?n - 1" if "0 < ?n"
    using that by (metis One_nat_def unat_minus_one word_greater_zero_iff)
  with r show ?thesis by simp
qed

theorem getStartBlock_recomputes_witness:
  "dbFault exEnv (now exState) = None \<and> fst (getStartBlock exEnv exState) = (99, None)"
proof -
  have h: "dbFault exEnv (now exState) = None" by (simp add: exEnv_def)
  show ?thesis using h getStartBlock_recomputes [OF h] by (simp add: exState_def)
qed

text \<open>
  C9. When the read of the progress record fails, \<^verbatim>\<open>getStartBlock\<close> writes the error
  line to the log, goes on with start block 0 and returns it together with the read's
  error; nothing but the read reaches the database.
\<close>

theorem getStartBlock_read_fails:
  assumes "dbFault e (now s) = Some err"
  shows "getStartBlock e s =
           ((0, Some err),
            logged (Errorf ''error retrieving last processed block, starting from 0: %v'')
              (called DbGetLastProcessedBlock s))"
  using assms by (simp add: getStartBlock_def GetLastProcessedBlock_def)

theorem getStartBlock_read_fails_witness:
  "dbFault exEnvReadFails (now exState) = Some (External ''timeout'') \<and>
   fst (getStartBlock exEnvReadFails exState) = (0, Some (External ''timeout'')) \<and>
   logs (snd (getStartBlock exEnvReadFails exState)) =
     [Errorf ''error retrieving last processed block, starting from 0: %v'']"
proof -
  have h: "dbFault exEnvReadFails (now exState) = Some (External ''timeout'')"
    by (simp add: exEnvReadFails_def exState_def now_def)
  show ?thesis using h getStartBlock_read_fails [OF h] by (simp add: exState_def)
qed

subsection \<open>The transaction of store: C1\<close>

text \<open>
  The four storage operations of \<^verbatim>\<open>store\<close> are issued at the moments \<open>now s\<close>,
  \<open>now s + 1\<close>, \<open>now s + 2\<close> and \<open>now s + 3\<close>: begin, payload write, pointer write,
  commit.
\<close>

lemma store_calls:
  "calls (snd (store e block data s)) = calls s @
     (if dbFault e (now s) \<noteq> None then [DbBeginStateTransaction]
      else if dbFault e (now s + 1) \<noteq> None
        then [DbBeginStateTransaction, DbStoreOffChainData data, DbRollback]
      else if dbFault e (now s + 2) \<noteq> None
        then [DbBeginStateTransaction, DbStoreOffChainData data,
              DbStoreLastProcessedBlock block, DbRollback]
      else [DbBeginStateTransaction, DbStoreOffChainData data,
            DbStoreLastProcessedBlock block, DbCommit])"
  by (auto simp add: store_def BeginStateTransaction_def StoreOffChainData_def
      StoreLastProcessedBlock_def Commit_def rollback_def Rollback_def
      split: option.splits)

lemma store_result:
  "fst (store e block data s) =
     (case dbFault e (now s) of Some err \<Rightarrow> Some err | None \<Rightarrow>
        (case dbFault e (now s + 1) of Some err \<Rightarrow> Some err | None \<Rightarrow>
           (case dbFault e (now s + 2) of Some err \<Rightarrow> Some err | None \<Rightarrow>
              dbFault e (now s + 3))))"
  by (auto simp add: store_def BeginStateTransaction_def StoreOffChainData_def
      StoreLastProcessedBlock_def Commit_def rollback_def Rollback_def numeral_3_eq_3
      split: option.splits)

lemma store_db:
  "db (snd (store e block data s)) =
     (case fst (store e block data s) of
        Some err \<Rightarrow> db s
      | None \<Rightarrow> applyTx \<lparr>tx_data = data, tx_block = Some block\<rparr> (db s))"
  by (auto simp add: store_def BeginStateTransaction_def StoreOffChainData_def
      StoreLastProcessedBlock_def Commit_def rollback_def Rollback_def
      split: option.splits)

lemma store_keeps:
  "committee (snd (store e block data s)) = committee s"
  "rng (snd (store e block data s)) = rng s"
  "self (snd (store e block data s)) = self s"
  by (auto simp add: store_def BeginStateTransaction_def StoreOffChainData_def
      StoreLastProcessedBlock_def Commit_def rollback_def Rollback_def
      split: option.splits)

text \<open>
  C1, as the claim states it, fails: when the commit fails, \<^verbatim>\<open>store\<close> returns the
  error at lines 199 to 201 and no rollback is called; the trace of the call ends with
  the commit.
\<close>

theorem store_commit_fails_counterexample:
  "fst (store exEnvCommitFails 101 [exPayload] exState) = Some (External ''commit failed'') \<and>
   calls (snd (store exEnvCommitFails 101 [exPayload] exState)) =
     [DbBeginStateTransaction, DbStoreOffChainData [exPayload],
      DbStoreLastProcessedBlock 101, DbCommit]"
  by (simp add: store_def BeginStateTransaction_def StoreOffChainData_def
      StoreLastProcessedBlock_def Commit_def exEnvCommitFails_def exEnv_def exState_def
      now_def called_def)

text \<open>
  C1, amended. For every block number and list of payloads, \<^verbatim>\<open>store\<close> issues begin,
  payload write, pointer write and commit on one transaction and stops at the first of
  them that fails, returning its error. Rollback is called after a failed payload write
  or pointer write, and after neither a failed begin nor a failed commit. When the call
  fails the database is what it was: no payload and no pointer of the call is visible.
  When it succeeds, all payloads and the pointer are visible together.
\<close>

theorem store_atomic:
  "fst (store e block data s) =
     (case dbFault e (now s) of Some err \<Rightarrow> Some err | None \<Rightarrow>
        (case dbFault e (now s + 1) of Some err \<Rightarrow> Some err | None \<Rightarrow>
           (case dbFault e (now s + 2) of Some err \<Rightarrow> Some err | None \<Rightarrow>
              dbFault e (now s + 3))))
   \<and> calls (snd (store e block data s)) = calls s @
     (if dbFault e (now s) \<noteq> None then [DbBeginStateTransaction]
      else if dbFault e (now s + 1) \<noteq> None
        then [DbBeginStateTransaction, DbStoreOffChainData data, DbRollback]
      else if dbFault e (now s + 2) \<noteq> None
        then [DbBeginStateTransaction, DbStoreOffChainData data,
              DbStoreLastProcessedBlock block, DbRollback]
      else [DbBeginStateTransaction, DbStoreOffChainData data,
            DbStoreLastProcessedBlock block, DbCommit])
   \<and> db (snd (store e block data s)) =
     (case fst (store e block data s) of
        Some err \<Rightarrow> db s
      | None \<Rightarrow>
          \<lparr>offchain_data = insertAll data (offchain_data (db s)),
           last_processed_block = block\<rparr>)"
proof (intro conjI)
  show "fst (store e block data s) =
     (case dbFault e (now s) of Some err \<Rightarrow> Some err | None \<Rightarrow>
        (case dbFault e (now s + 1) of Some err \<Rightarrow> Some err | None \<Rightarrow>
           (case dbFault e (now s + 2) of Some err \<Rightarrow> Some err | None \<Rightarrow>
              dbFault e (now s + 3))))"
    by (rule store_result)
next
  show "calls (snd (store e block data s)) = calls s @
     (if dbFault e (now s) \<noteq> None then [DbBeginStateTransaction]
      else if dbFault e (now s + 1) \<noteq> None
        then [DbBeginStateTransaction, DbStoreOffChainData data, DbRollback]
      else if dbFault e (now s + 2) \<noteq> None
        then [DbBeginStateTransaction, DbStoreOffChainData data,
              DbStoreLastProcessedBlock block, DbRollback]
      else [DbBeginStateTransaction, DbStoreOffChainData data,
            DbStoreLastProcessedBlock block, DbCommit])"
    by (rule store_calls)
next
  have a: "applyTx \<lparr>tx_data = data, tx_block = Some block\<rparr> (db s) =
          \<lparr>offchain_data = insertAll data (offchain_data (db s)), last_processed_block = block\<rparr>"
    by (simp add: applyTx_def)
  show "db (snd (store e block data s)) =
     (case fst (store e block data s) of
        Some err \<Rightarrow> db s
      | None \<Rightarrow>
          \<lparr>offchain_data = insertAll data (offchain_data (db s)),
           last_processed_block = block\<rparr>)"
    unfolding a [symmetric] by (rule store_db)
qed

subsection \<open>Facts about the loop of resolve\<close>

lemma resolveWithMember_state [simp]:
  "snd (resolveWithMember e key m s) = called (query key m) s"
  by (simp add: resolveWithMember_def query_def split: prod.splits)

lemma resolveWithMember_fails:
  "memberFails e (now s) key m \<Longrightarrow> \<exists>v err. fst (resolveWithMember e key m s) = (v, Some err)"
  by (auto simp add: resolveWithMember_def memberFails_def split: prod.splits)

lemma resolveWithMember_ok:
  "\<not> memberFails e (now s) key m \<Longrightarrow>
   fst (resolveWithMember e key m s) =
     (\<lparr>Key = key, Value = fst (GetOffChainData e (now s) (URL m) key)\<rparr>, None)"
  by (auto simp add: resolveWithMember_def memberFails_def split: prod.splits)

lemma resolveLoop_fail_step:
  assumes "memberFails e (now s) key m"
  shows "resolveLoop e key (m # rest) s =
           resolveLoop e key rest
             ((logged warnEvict (called (query key m) s))
                \<lparr>committee := AList.delete (Addr m) (committee s)\<rparr>)"
proof -
  obtain v err where f: "fst (resolveWithMember e key m s) = (v, Some err)"
    using resolveWithMember_fails [OF assms] by blast
  have "resolveWithMember e key m s = ((v, Some err), called (query key m) s)"
    using f resolveWithMember_state [of e key m s] by (metis prod.collapse)
  then show ?thesis by (simp add: warnEvict_def)
qed

lemma resolveLoop_ok_step:
  assumes "\<not> memberFails e (now s) key m"
  shows "resolveLoop e key (m # rest) s =
           (Inr \<lparr>Key = key, Value = fst (GetOffChainData e (now s) (URL m) key)\<rparr>,
            called (query key m) s)"
proof -
  have "resolveWithMember e key m s =
          ((\<lparr>Key = key, Value = fst (GetOffChainData e (now s) (URL m) key)\<rparr>, None),
           called (query key m) s)"
    using resolveWithMember_ok [OF assms] resolveWithMember_state [of e key m s]
    by (metis prod.collapse)
  then show ?thesis by simp
qed

lemma now_evicted [simp]:
  "now (s\<lparr>committee := c\<rparr>) = now s" "now (s\<lparr>rng := g\<rparr>) = now s"
  by (simp_all add: now_def)

lemma evict_filter:
  "filter (\<lambda>(a, m). a \<notin> A) (AList.delete k c) = filter (\<lambda>(a, m). a \<notin> insert k A) c"
  by (induction c) auto

lemma resolveLoop_first:
  assumes "j < length ms"
    and "\<forall>k<j. memberFails e (now s + k) key (ms ! k)"
    and "\<not> memberFails e (now s + j) key (ms ! j)"
  shows "fst (resolveLoop e key ms s) =
           Inr \<lparr>Key = key, Value = fst (GetOffChainData e (now s + j) (URL (ms ! j)) key)\<rparr>
         \<and> calls (snd (resolveLoop e key ms s)) = calls s @ map (query key) (take (Suc j) ms)
         \<and> committee (snd (resolveLoop e key ms s)) =
             filter (\<lambda>(a, m). a \<notin> Addr ` set (take j ms)) (committee s)"
  using assms
proof (induction ms arbitrary: j s)
  case Nil
  then show ?case by simp
next
  case (Cons m ms)
  show ?case
  proof (cases j)
    case 0
    with Cons.prems(3) have "\<not> memberFails e (now s) key m" by simp
    from resolveLoop_ok_step [OF this] 0 show ?thesis by simp
  next
    case (Suc i)
    let ?s = "(logged warnEvict (called (query key m) s))
                \<lparr>committee := AList.delete (Addr m) (committee s)\<rparr>"
    from Cons.prems(2) Suc have "memberFails e (now s) key m" by auto
    then have step: "resolveLoop e key (m # ms) s = resolveLoop e key ms ?s"
      by (rule resolveLoop_fail_step)
    have n: "now ?s = Suc (now s)" by simp
    have a: "i < length ms" using Cons.prems(1) Suc by simp
    have b: "\<forall>k<i. memberFails e (now ?s + k) key (ms ! k)"
      using Cons.prems(2) Suc n by (metis Suc_less_eq add_Suc_shift nth_Cons_Suc)
    have c: "\<not> memberFails e (now ?s + i) key (ms ! i)"
      using Cons.prems(3) Suc n by simp
    from Cons.IH [OF a b c] Suc n show ?thesis
      unfolding step by (simp add: evict_filter)
  qed
qed

lemma resolveLoop_all_fail:
  assumes "\<forall>k<length ms. memberFails e (now s + k) key (ms ! k)"
  shows "fst (resolveLoop e key ms s) = Inl (NoDataFoundForKey key)
         \<and> calls (snd (resolveLoop e key ms s)) = calls s @ map (query key) ms
         \<and> committee (snd (resolveLoop e key ms s)) =
             filter (\<lambda>(a, m). a \<notin> Addr ` set ms) (committee s)"
  using assms
proof (induction ms arbitrary: s)
  case Nil
  then show ?case by simp
next
  case (Cons m ms)
  let ?s = "(logged warnEvict (called (query key m) s))
              \<lparr>committee := AList.delete (Addr m) (committee s)\<rparr>"
  from Cons.prems have "memberFails e (now s) key m" by auto
  then have step: "resolveLoop e key (m # ms) s = resolveLoop e key ms ?s"
    by (rule resolveLoop_fail_step)
  have n: "now ?s = Suc (now s)" by simp
  have b: "\<forall>k<length ms. memberFails e (now ?s + k) key (ms ! k)"
    using Cons.prems n by (metis Suc_less_eq add_Suc_shift length_Cons nth_Cons_Suc)
  from Cons.IH [OF b] show ?case
    unfolding step by (simp add: evict_filter)
qed

lemma resolveLoop_keeps:
  "db (snd (resolveLoop e key ms s)) = db s"
  "rng (snd (resolveLoop e key ms s)) = rng s"
  "self (snd (resolveLoop e key ms s)) = self s"
proof (induction ms arbitrary: s)
  case Nil
  { case 1 show ?case by simp }
  { case 2 show ?case by simp }
  { case 3 show ?case by simp }
next
  case (Cons m ms)
  { case 1 show ?case 
      by (cases "memberFails e (now s) key m")
         (simp_all add: resolveLoop_fail_step resolveLoop_ok_step Cons.IH del: resolveLoop.simps) }
  { case 2 show ?case
      by (cases "memberFails e (now s) key m")
         (simp_all add: resolveLoop_fail_step resolveLoop_ok_step Cons.IH del: resolveLoop.simps) }
  { case 3 show ?case
      by (cases "memberFails e (now s) key m")
         (simp_all add: resolveLoop_fail_step resolveLoop_ok_step Cons.IH del: resolveLoop.simps) }
qed

lemma resolveLoop_Inl:
  "fst (resolveLoop e key ms s) = Inl err \<Longrightarrow>
   err = NoDataFoundForKey key \<and> (\<forall>k<length ms. memberFails e (now s + k) key (ms ! k))"
proof (induction ms arbitrary: s)
  case Nil
  then show ?case by simp
next
  case (Cons m ms)
  let ?s = "(logged warnEvict (called (query key m) s))
              \<lparr>committee := AList.delete (Addr m) (committee s)\<rparr>"
  have f: "memberFails e (now s) key m"
  proof (rule ccontr)
    assume "\<not> memberFails e (now s) key m"
    from resolveLoop_ok_step [OF this] Cons.prems show False by simp
  qed
  then have step: "resolveLoop e key (m # ms) s = resolveLoop e key ms ?s"
    by (rule resolveLoop_fail_step)
  with Cons.prems have "fst (resolveLoop e key ms ?s) = Inl err" by simp
  from Cons.IH [OF this]
  have ih: "err = NoDataFoundForKey key" "\<forall>k<length ms. memberFails e (Suc (now s) + k) key (ms ! k)"
    by simp_all
  have "memberFails e (now s + k) key ((m # ms) ! k)" if "k < length (m # ms)" for k
    using that f ih(2) by (cases k) simp_all
  with ih(1) show ?case by blast
qed

lemma resolveLoop_some_success:
  assumes "i < length ms" and "\<not> memberFails e (now s + i) key (ms ! i)"
  shows "\<exists>j\<le>i. (\<forall>k<j. memberFails e (now s + k) key (ms ! k))
           \<and> \<not> memberFails e (now s + j) key (ms ! j)"
proof -
  let ?P = "\<lambda>j. \<not> memberFails e (now s + j) key (ms ! j)"
  have "?P i" using assms(2) .
  then have "?P (LEAST j. ?P j)" by (rule LeastI)
  moreover have "(LEAST j. ?P j) \<le> i" using \<open>?P i\<close> by (rule Least_le)
  moreover have "\<forall>k<(LEAST j. ?P j). memberFails e (now s + k) key (ms ! k)"
    using not_less_Least by blast
  ultimately show ?thesis by blast
qed

subsection \<open>Facts about the refresh and the visiting order\<close>

lemma keyedByAddr_update:
  "keyedByAddr c \<Longrightarrow> keyedByAddr (AList.update (Addr m) m c)"
  by (induction c) (auto simp add: keyedByAddr_def)

lemma keyedByAddr_collect:
  "keyedByAddr c \<Longrightarrow> keyedByAddr (collectCommittee me ms c)"
  by (induction ms arbitrary: c) (simp_all add: keyedByAddr_update)

lemma refreshIfEmpty_keeps:
  assumes "refreshIfEmpty e s = (r, s1)"
  shows "db s1 = db s" "self s1 = self s" "rng s1 = rng s" "logs s1 = logs s"
    "calls s1 = calls s @ (if length (committee s) = 0 then [EthGetCurrentDataCommittee] else [])"
  using assms
  by (auto simp add: refreshIfEmpty_def resolveCommittee_def split: if_splits sum.splits)

lemma refreshIfEmpty_keyed:
  assumes "refreshIfEmpty e s = (r, s1)" and "keyedByAddr (committee s)"
  shows "keyedByAddr (committee s1)"
proof -
  have "keyedByAddr (collectCommittee me ms [])" for me ms
    by (rule keyedByAddr_collect) (simp add: keyedByAddr_def)
  with assms show ?thesis
    by (auto simp add: refreshIfEmpty_def resolveCommittee_def split: if_splits sum.splits)
qed

lemma resolve_loop_eq:
  "refreshIfEmpty e s = (None, s1) \<Longrightarrow>
   resolve e key s = resolveLoop e key (visitOrder e s1) (s1\<lparr>rng := Suc (rng s1)\<rparr>)"
  by (simp add: resolve_def)

lemma resolve_refresh_fails:
  "refreshIfEmpty e s = (Some err, s1) \<Longrightarrow> resolve e key s = (Inl err, s1)"
  by (simp add: resolve_def)

lemma visitOrder_set:
  assumes "isPerm (randPerm e (rng s) (length (snapshot s))) (length (snapshot s))"
  shows "set (visitOrder e s) = set (snapshot s)"
proof -
  let ?p = "randPerm e (rng s) (length (snapshot s))"
  have "set ?p = set (sort ?p)" by simp
  also have "\<dots> = {0..<length (snapshot s)}" using assms by (simp add: isPerm_def)
  finally have "set ?p = {0..<length (snapshot s)}" .
  then have "set (visitOrder e s) = (\<lambda>r. snapshot s ! r) ` {0..<length (snapshot s)}"
    by (simp add: visitOrder_def)
  also have "\<dots> = set (snapshot s)"
    using nth_image [of "length (snapshot s)" "snapshot s"] by simp
  finally show ?thesis .
qed

lemma snapshot_members: "snd ` set (committee s) \<subseteq> set (snapshot s)"
  by (simp add: snapshot_def)

lemma all_evicted:
  assumes "keyedByAddr c" and "snd ` set c \<subseteq> set ms"
  shows "filter (\<lambda>(a, m). a \<notin> Addr ` set ms) c = []"
proof -
  have "a \<in> Addr ` set ms" if "(a, m) \<in> set c" for a m
  proof -
    from that assms(1) have "a = Addr m"
      unfolding keyedByAddr_def list_all_iff by blast
    moreover from that assms(2) have "m \<in> set ms"
      by (metis image_eqI snd_conv subsetD)
    ultimately show ?thesis by simp
  qed
  then have "\<forall>x\<in>set c. \<not> (case x of (a, m) \<Rightarrow> a \<notin> Addr ` set ms)"
    by (metis (mono_tags, lifting) case_prod_beta prod.collapse)
  then show ?thesis by (simp only: filter_empty_conv)
qed

subsection \<open>Resolution: C3, C5, C6 and C7\<close>

lemma exState_visitOrder:
  "refreshIfEmpty exEnv exState = (None, exState)"
  "visitOrder exEnv exState = [zeroMember, zeroMember, exMemberA, exMemberB]"
  "now exState = 0"
  by (simp_all add: refreshIfEmpty_def visitOrder_def snapshot_def exEnv_def exState_def
      now_def upt_rec)

text \<open>
  C3. Let the cache be non-empty or its refresh succeed, and let some member of the
  visiting order return a non-empty payload without error when its turn comes. Then
  there is a first such member; every member before it fails, whatever their number;
  \<^verbatim>\<open>resolve\<close> succeeds with the requested key and the bytes of that first member;
  and the queries sent are those to the members up to and including it, none after.
\<close>

theorem resolve_first_answer:
  assumes "refreshIfEmpty e s = (None, s1)"
    and "i < length (visitOrder e s1)"
    and "\<not> memberFails e (now s1 + i) key (visitOrder e s1 ! i)"
  shows "\<exists>j\<le>i. (\<forall>k<j. memberFails e (now s1 + k) key (visitOrder e s1 ! k))
           \<and> \<not> memberFails e (now s1 + j) key (visitOrder e s1 ! j)
           \<and> fst (resolve e key s) =
               Inr \<lparr>Key = key,
                    Value = fst (GetOffChainData e (now s1 + j) (URL (visitOrder e s1 ! j)) key)\<rparr>
           \<and> calls (snd (resolve e key s)) =
               calls s1 @ map (query key) (take (Suc j) (visitOrder e s1))"
proof -
  let ?s = "s1\<lparr>rng := Suc (rng s1)\<rparr>"
  let ?ms = "visitOrder e s1"
  have n: "now ?s = now s1" by simp
  from resolveLoop_some_success [of i ?ms e ?s key] assms(2,3) n
  obtain j where j: "j \<le> i" "\<forall>k<j. memberFails e (now ?s + k) key (?ms ! k)"
    "\<not> memberFails e (now ?s + j) key (?ms ! j)"
    by auto
  from j(1) assms(2) have "j < length ?ms" by simp
  from resolveLoop_first [OF this j(2,3)] resolve_loop_eq [OF assms(1), of key] n
  have "fst (resolve e key s) =
          Inr \<lparr>Key = key, Value = fst (GetOffChainData e (now s1 + j) (URL (?ms ! j)) key)\<rparr>"
    and "calls (snd (resolve e key s)) = calls s1 @ map (query key) (take (Suc j) ?ms)"
    by simp_all
  with j n show ?thesis by auto
qed

theorem resolve_first_answer_witness:
  "refreshIfEmpty exEnv exState = (None, exState) \<and>
   \<not> memberFails exEnv (now exState + 3) 6 (visitOrder exEnv exState ! 3) \<and>
   fst (resolve exEnv 6 exState) = Inr \<lparr>Key = 6, Value = [7]\<rparr> \<and>
   calls (snd (resolve exEnv 6 exState)) =
     [query 6 zeroMember, query 6 zeroMember, query 6 exMemberA, query 6 exMemberB]"
proof -
  note v = exState_visitOrder
  have h2: "3 < length (visitOrder exEnv exState)" by (simp add: v)
  have h3: "\<not> memberFails exEnv (now exState + 3) 6 (visitOrder exEnv exState ! 3)"
    unfolding v by (simp add: memberFails_def exEnv_def exMemberB_def)
  from resolve_first_answer [OF v(1) h2 h3]
  obtain j where j: "j \<le> 3"
    "\<not> memberFails exEnv (now exState + j) 6 (visitOrder exEnv exState ! j)"
    "fst (resolve exEnv 6 exState) =
       Inr \<lparr>Key = 6, Value = fst (GetOffChainData exEnv (now exState + j)
         (URL (visitOrder exEnv exState ! j)) 6)\<rparr>"
    "calls (snd (resolve exEnv 6 exState)) =
       calls exState @ map (query 6) (take (Suc j) (visitOrder exEnv exState))"
    by blast
  from j(1) have "j = 0 \<or> j = 1 \<or> j = 2 \<or> j = 3" by arith
  with j(2) have "j = 3"
    unfolding v by (auto simp add: memberFails_def exEnv_def exMemberA_def zeroMember_def)
  with j(3,4) have
    "fst (resolve exEnv 6 exState) = Inr \<lparr>Key = 6, Value = [7]\<rparr>"
    "calls (snd (resolve exEnv 6 exState)) =
       [query 6 zeroMember, query 6 zeroMember, query 6 exMemberA, query 6 exMemberB]"
    unfolding v by (simp_all add: exEnv_def exMemberB_def exState_def)
  with v(1) h3 show ?thesis by simp
qed

lemma exEnvNoData_fails: "memberFails exEnvNoData t key m"
  by (simp add: memberFails_def exEnvNoData_def exEnv_def)

lemma exState_NoData:
  "refreshIfEmpty exEnvNoData exState = (None, exState)"
  "isPerm (randPerm exEnvNoData (rng exState) (length (snapshot exState)))
     (length (snapshot exState))"
  "keyedByAddr (committee exState)"
  by (simp_all add: refreshIfEmpty_def exEnvNoData_def exEnv_def exState_def isPerm_def
      keyedByAddr_def exMemberA_def exMemberB_def)

text \<open>
  C5. A member whose query returns no bytes or an error is logged, deleted from the
  cache, and the loop goes on with the next member. When the cache is non-empty or its
  refresh succeeds, \<^verbatim>\<open>resolve\<close> fails exactly when every member of the visiting order
  fails at its turn; the error is then the not-found error for the key, every member of
  the order has been queried, and the cache is left empty.
\<close>

theorem resolve_member_failures:
  assumes "refreshIfEmpty e s = (None, s1)"
    and "keyedByAddr (committee s)"
    and "isPerm (randPerm e (rng s1) (length (snapshot s1))) (length (snapshot s1))"
  shows "(memberFails e (now s') key m \<longrightarrow>
            resolveLoop e key (m # rest) s' =
              resolveLoop e key rest
                ((logged warnEvict (called (query key m) s'))
                   \<lparr>committee := AList.delete (Addr m) (committee s')\<rparr>))
         \<and> ((\<forall>k<length (visitOrder e s1). memberFails e (now s1 + k) key (visitOrder e s1 ! k)) \<longrightarrow>
               fst (resolve e key s) = Inl (NoDataFoundForKey key)
               \<and> committee (snd (resolve e key s)) = []
               \<and> calls (snd (resolve e key s)) = calls s1 @ map (query key) (visitOrder e s1))
         \<and> (\<forall>err. fst (resolve e key s) = Inl err \<longrightarrow>
               err = NoDataFoundForKey key
               \<and> (\<forall>k<length (visitOrder e s1).
                     memberFails e (now s1 + k) key (visitOrder e s1 ! k)))"
proof -
  let ?s = "s1\<lparr>rng := Suc (rng s1)\<rparr>"
  let ?ms = "visitOrder e s1"
  let ?allFail = "\<forall>k<length ?ms. memberFails e (now s1 + k) key (?ms ! k)"
  have step: "memberFails e (now s') key m \<longrightarrow>
            resolveLoop e key (m # rest) s' =
              resolveLoop e key rest
                ((logged warnEvict (called (query key m) s'))
                   \<lparr>committee := AList.delete (Addr m) (committee s')\<rparr>)"
    using resolveLoop_fail_step [of e s' key m rest] by blast
  have exhausted: "fst (resolve e key s) = Inl (NoDataFoundForKey key)
      \<and> committee (snd (resolve e key s)) = []
      \<and> calls (snd (resolve e key s)) = calls s1 @ map (query key) ?ms" if ?allFail
  proof -
    from that have a: "\<forall>k<length ?ms. memberFails e (now ?s + k) key (?ms ! k)" by simp
    note r = resolveLoop_all_fail [OF a] resolve_loop_eq [OF assms(1), of key]
    have "keyedByAddr (committee s1)"
      using assms(1,2) by (rule refreshIfEmpty_keyed)
    moreover have "snd ` set (committee s1) \<subseteq> set ?ms"
      using visitOrder_set [OF assms(3)] snapshot_members [of s1] by simp
    ultimately have "filter (\<lambda>(a, m). a \<notin> Addr ` set ?ms) (committee s1) = []"
      by (rule all_evicted)
    with r show ?thesis by simp
  qed
  have onlyIf: "err = NoDataFoundForKey key \<and> ?allFail"
    if "fst (resolve e key s) = Inl err" for err
  proof -
    from that have "fst (resolveLoop e key ?ms ?s) = Inl err"
      using resolve_loop_eq [OF assms(1), of key] by simp
    from resolveLoop_Inl [OF this] show ?thesis by simp
  qed
  from step exhausted onlyIf show ?thesis by blast
qed

theorem resolve_member_failures_witness:
  "refreshIfEmpty exEnvNoData exState = (None, exState) \<and>
   memberFails exEnvNoData (now exState) 6 exMemberA \<and>
   resolveLoop exEnvNoData 6 [exMemberA, exMemberB] exState =
     resolveLoop exEnvNoData 6 [exMemberB]
       ((logged warnEvict (called (query 6 exMemberA) exState))
          \<lparr>committee := [(2, exMemberB)]\<rparr>) \<and>
   fst (resolve exEnvNoData 6 exState) = Inl (NoDataFoundForKey 6) \<and>
   committee (snd (resolve exEnvNoData 6 exState)) = []"
proof -
  note t = resolve_member_failures [OF exState_NoData(1) exState_NoData(3) exState_NoData(2),
      of exState 6 exMemberA "[exMemberB]"]
  have d: "AList.delete (Addr exMemberA) (committee exState) = [(2, exMemberB)]"
    by (simp add: exState_def exMemberA_def)
  from t have step: "memberFails exEnvNoData (now exState) 6 exMemberA \<longrightarrow>
      resolveLoop exEnvNoData 6 [exMemberA, exMemberB] exState =
        resolveLoop exEnvNoData 6 [exMemberB]
          ((logged warnEvict (called (query 6 exMemberA) exState))
             \<lparr>committee := AList.delete (Addr exMemberA) (committee exState)\<rparr>)"
    by (rule conjunct1)
  from t have exhausted:
    "(\<forall>k<length (visitOrder exEnvNoData exState).
        memberFails exEnvNoData (now exState + k) 6 (visitOrder exEnvNoData exState ! k)) \<longrightarrow>
     fst (resolve exEnvNoData 6 exState) = Inl (NoDataFoundForKey 6)
     \<and> committee (snd (resolve exEnvNoData 6 exState)) = []
     \<and> calls (snd (resolve exEnvNoData 6 exState)) =
         calls exState @ map (query 6) (visitOrder exEnvNoData exState)"
    by (rule conjunct1 [OF conjunct2])
  from step exEnvNoData_fails have 1:
    "resolveLoop exEnvNoData 6 [exMemberA, exMemberB] exState =
       resolveLoop exEnvNoData 6 [exMemberB]
         ((logged warnEvict (called (query 6 exMemberA) exState))
            \<lparr>committee := [(2, exMemberB)]\<rparr>)"
    unfolding d by blast
  from exhausted exEnvNoData_fails have 2:
    "fst (resolve exEnvNoData 6 exState) = Inl (NoDataFoundForKey 6)"
    "committee (snd (resolve exEnvNoData 6 exState)) = []"
    by blast+
  from 1 2 exState_NoData(1) exEnvNoData_fails [of "now exState" 6 exMemberA]
  show ?thesis by (intro conjI)
qed

text \<open>
  The slice built at lines 219 to 222 is twice as long as the cache, and its first half
  is zero-valued.
\<close>

lemma snapshot_shape:
  "length (snapshot s) = 2 * length (committee s)"
  "take (length (committee s)) (snapshot s) = replicate (length (committee s)) zeroMember"
  by (simp_all add: snapshot_def)

text \<open>
  C6 fails on the code. With the cache holding A and B and the identity permutation,
  the snapshot has four entries, two zero-valued members before A and B, and
  \<^verbatim>\<open>resolve\<close> queries the empty endpoint of the zero-valued member twice before it
  reaches A and B.
\<close>

theorem resolve_visits_zero_members:
  "snapshot exState = [zeroMember, zeroMember, exMemberA, exMemberB] \<and>
   calls (snd (resolve exEnv 6 exState)) =
     [RpcGetOffChainData [] 6, RpcGetOffChainData [] 6,
      RpcGetOffChainData ''http://a'' 6, RpcGetOffChainData ''http://b'' 6]"
proof -
  have "snapshot exState = [zeroMember, zeroMember, exMemberA, exMemberB]"
    by (simp add: snapshot_def exState_def)
  moreover have "calls (snd (resolve exEnv 6 exState)) =
     [RpcGetOffChainData [] 6, RpcGetOffChainData [] 6,
      RpcGetOffChainData ''http://a'' 6, RpcGetOffChainData ''http://b'' 6]"
    unfolding resolve_loop_eq [OF exState_visitOrder(1)] exState_visitOrder(2)
    by (simp add: resolveWithMember_def exEnv_def zeroMember_def exMemberA_def exMemberB_def
        exState_def now_def called_def logged_def)
  ultimately show ?thesis by simp
qed

text \<open>
  C7, as the claim states it, fails: nothing compares the bytes with the key. Member B
  answers with the same bytes for every key, and \<^verbatim>\<open>resolve\<close> accepts them as the
  payload of key 6 and as the payload of key 8; they can hash to one of the two at most.
\<close>

theorem resolve_accepts_any_bytes_counterexample:
  "fst (resolve exEnv 6 exState) = Inr \<lparr>Key = 6, Value = [7]\<rparr> \<and>
   fst (resolve exEnv 8 exState) = Inr \<lparr>Key = 8, Value = [7]\<rparr>"
  unfolding resolve_loop_eq [OF exState_visitOrder(1)] exState_visitOrder(2)
  by (simp add: resolveWithMember_def exEnv_def zeroMember_def exMemberA_def exMemberB_def
      exState_def now_def called_def logged_def)

text \<open>
  C7, amended. Whatever the bytes are, a non-empty answer that the client returns
  without error is accepted as it is: \<^verbatim>\<open>resolveWithMember\<close> pairs the bytes with the
  requested key and the loop of \<^verbatim>\<open>resolve\<close> returns that pair as the result.
\<close>

theorem resolveWithMember_accepts_unchecked:
  assumes "GetOffChainData e (now s) (URL m) key = (bs, None)" and "bs \<noteq> []"
  shows "resolveWithMember e key m s = ((\<lparr>Key = key, Value = bs\<rparr>, None), called (query key m) s)
         \<and> resolveLoop e key (m # rest) s = (Inr \<lparr>Key = key, Value = bs\<rparr>, called (query key m) s)"
  using assms by (simp add: resolveWithMember_def query_def)

theorem resolveWithMember_accepts_unchecked_witness:
  "GetOffChainData exEnv (now exState) (URL exMemberB) 8 = ([7], None) \<and>
   resolveLoop exEnv 8 [exMemberB] exState =
     (Inr \<lparr>Key = 8, Value = [7]\<rparr>, called (query 8 exMemberB) exState)"
proof -
  have h: "GetOffChainData exEnv (now exState) (URL exMemberB) 8 = ([7], None)"
    by (simp add: exEnv_def exMemberB_def)
  have n: "[7::8 word] \<noteq> []" by simp
  from resolveWithMember_accepts_unchecked [OF h n, of "[]"] h show ?thesis by blast
qed

subsection \<open>Facts about the trace of an event\<close>

lemma collectMissing_eq:
  "collectMissing e keys missing s =
     (missing @ filter (\<lambda>k. offchain_data (db s) k = None) keys,
      s\<lparr>calls := calls s @ map DbExists keys\<rparr>)"
proof (induction keys arbitrary: missing s)
  case Nil
  then show ?case by simp
next
  case (Cons k ks)
  show ?case
    by (simp add: Cons.IH exists_def Exists_def called_def)
qed

lemma resolveLoop_calls:
  "\<exists>n. calls (snd (resolveLoop e key ms s)) = calls s @ map (query key) (take n ms)"
proof (cases "\<forall>k<length ms. memberFails e (now s + k) key (ms ! k)")
  case True
  from resolveLoop_all_fail [OF True]
  have "calls (snd (resolveLoop e key ms s)) = calls s @ map (query key) (take (length ms) ms)"
    by simp
  then show ?thesis ..
next
  case False
  then obtain i where i: "i < length ms" "\<not> memberFails e (now s + i) key (ms ! i)"
    by blast
  from resolveLoop_some_success [OF i]
  obtain j where j: "j \<le> i" "\<forall>k<j. memberFails e (now s + k) key (ms ! k)"
    "\<not> memberFails e (now s + j) key (ms ! j)"
    by blast
  from j(1) i(1) have "j < length ms" by simp
  from resolveLoop_first [OF this j(2,3)]
  have "calls (snd (resolveLoop e key ms s)) = calls s @ map (query key) (take (Suc j) ms)"
    by simp
  then show ?thesis ..
qed

text \<open>What one resolution adds to the trace: at most a refresh, then queries for its key.\<close>

lemma resolve_calls:
  "\<exists>cs. calls (snd (resolve e key s)) = calls s @ cs
        \<and> (\<forall>c\<in>set cs. c = EthGetCurrentDataCommittee \<or> (\<exists>u. c = RpcGetOffChainData u key))"
proof -
  obtain r s1 where r: "refreshIfEmpty e s = (r, s1)" by (cases "refreshIfEmpty e s")
  let ?cs = "if length (committee s) = 0 then [EthGetCurrentDataCommittee] else []"
  from refreshIfEmpty_keeps(5) [OF r] have c1: "calls s1 = calls s @ ?cs" .
  show ?thesis
  proof (cases r)
    case (Some err)
    with r have "resolve e key s = (Inl err, s1)" by (simp add: resolve_refresh_fails)
    with c1 have "calls (snd (resolve e key s)) = calls s @ ?cs" by simp
    moreover have "\<forall>c\<in>set ?cs. c = EthGetCurrentDataCommittee \<or> (\<exists>u. c = RpcGetOffChainData u key)"
      by simp
    ultimately show ?thesis by blast
  next
    case None
    let ?s = "s1\<lparr>rng := Suc (rng s1)\<rparr>"
    from None r have eq: "resolve e key s = resolveLoop e key (visitOrder e s1) ?s"
      by (simp add: resolve_loop_eq)
    obtain n where "calls (snd (resolveLoop e key (visitOrder e s1) ?s)) =
        calls ?s @ map (query key) (take n (visitOrder e s1))"
      using resolveLoop_calls by blast
    with eq c1 have "calls (snd (resolve e key s)) =
        calls s @ (?cs @ map (query key) (take n (visitOrder e s1)))"
      by simp
    moreover have "\<forall>c\<in>set (?cs @ map (query key) (take n (visitOrder e s1))).
        c = EthGetCurrentDataCommittee \<or> (\<exists>u. c = RpcGetOffChainData u key)"
      by (auto simp add: query_def)
    ultimately show ?thesis by blast
  qed
qed

lemma resolve_db: "db (snd (resolve e key s)) = db s"
proof -
  obtain r s1 where r: "refreshIfEmpty e s = (r, s1)" by (cases "refreshIfEmpty e s")
  show ?thesis
  proof (cases r)
    case (Some err)
    with r show ?thesis by (simp add: resolve_refresh_fails refreshIfEmpty_keeps(1))
  next
    case None
    with r show ?thesis
      by (simp add: resolve_loop_eq resolveLoop_keeps(1) refreshIfEmpty_keeps(1))
  qed
qed

text \<open>What the loop of resolveAndStore adds: refreshes and queries for the given keys.\<close>

lemma resolveKeys_calls:
  "\<exists>cs. calls (snd (resolveKeys e keys data s)) = calls s @ cs
        \<and> (\<forall>c\<in>set cs. c = EthGetCurrentDataCommittee
                        \<or> (\<exists>u k. c = RpcGetOffChainData u k \<and> k \<in> set keys))"
proof (induction keys arbitrary: data s)
  case Nil
  then show ?case by simp
next
  case (Cons key keys)
  obtain r s' where r: "resolve e key s = (r, s')" by (cases "resolve e key s")
  from resolve_calls [of e key s] r
  obtain cs where cs: "calls s' = calls s @ cs"
    "\<forall>c\<in>set cs. c = EthGetCurrentDataCommittee \<or> (\<exists>u. c = RpcGetOffChainData u key)"
    by auto
  show ?case
  proof (cases r)
    case (Inl err)
    with r cs(1) have "calls (snd (resolveKeys e (key # keys) data s)) = calls s @ cs" by simp
    moreover from cs(2) have "\<forall>c\<in>set cs. c = EthGetCurrentDataCommittee
        \<or> (\<exists>u k. c = RpcGetOffChainData u k \<and> k \<in> set (key # keys))"
      by auto
    ultimately show ?thesis by blast
  next
    case (Inr val)
    from Cons.IH [of "data @ [val]" s']
    obtain ds where ds: "calls (snd (resolveKeys e keys (data @ [val]) s')) = calls s' @ ds"
      "\<forall>c\<in>set ds. c = EthGetCurrentDataCommittee
          \<or> (\<exists>u k. c = RpcGetOffChainData u k \<and> k \<in> set keys)"
      by blast
    from Inr r ds(1) cs(1)
    have "calls (snd (resolveKeys e (key # keys) data s)) = calls s @ (cs @ ds)" by simp
    moreover from cs(2) ds(2) have "\<forall>c\<in>set (cs @ ds). c = EthGetCurrentDataCommittee
        \<or> (\<exists>u k. c = RpcGetOffChainData u k \<and> k \<in> set (key # keys))"
      by auto
    ultimately show ?thesis by blast
  qed
qed

lemma resolveKeys_db: "db (snd (resolveKeys e keys data s)) = db s"
proof (induction keys arbitrary: data s)
  case Nil
  then show ?case by simp
next
  case (Cons key keys)
  obtain r s' where r: "resolve e key s = (r, s')" by (cases "resolve e key s")
  then have "db s' = db s" using resolve_db [of e key s] by simp
  with r Cons.IH show ?case by (cases r) simp_all
qed

lemma resolveKeys_append:
  "resolveKeys e (pre @ rest) data s =
     (case resolveKeys e pre data s of
        (Inl err, s') \<Rightarrow> (Inl err, s')
      | (Inr d, s') \<Rightarrow> resolveKeys e rest d s')"
  by (induction pre arbitrary: data s) (auto split: prod.splits sum.splits)

subsection \<open>Handling an event: C2, C4 and C10\<close>

lemma filter_tx_network:
  "\<forall>c\<in>set cs. c = EthGetCurrentDataCommittee \<or> (\<exists>u k. c = RpcGetOffChainData u k \<and> k \<in> K)
   \<Longrightarrow> filter isTxCall cs = []"
  by (induction cs) auto

lemma filter_tx_probes: "filter isTxCall (map DbExists keys) = []"
  by (induction keys) auto

lemma resolveKeys_tx:
  "filter isTxCall (calls (snd (resolveKeys e keys data s))) = filter isTxCall (calls s)"
proof -
  from resolveKeys_calls [of e keys data s]
  obtain cs where cs: "calls (snd (resolveKeys e keys data s)) = calls s @ cs"
    "\<forall>c\<in>set cs. c = EthGetCurrentDataCommittee
        \<or> (\<exists>u k. c = RpcGetOffChainData u k \<and> k \<in> set keys)"
    by blast
  from filter_tx_network [OF cs(2)] cs(1) show ?thesis by simp
qed

lemma handle_eq:
  assumes "parseEvent e event = Inr (block, keys)"
  shows "handleSequenceBatches e event s =
           resolveAndStore e block (filter (\<lambda>k. offchain_data (db s) k = None) keys)
             (s\<lparr>calls := calls s @ map DbExists keys\<rparr>)"
  using assms by (simp add: handleSequenceBatches_def collectMissing_eq)

lemma resolveAndStore_fails_at:
  assumes "resolveKeys e pre [] s = (Inr data, s2)" and "resolve e key s2 = (Inl err, s3)"
  shows "resolveAndStore e block (pre @ key # post) s = (Some err, s3)"
  using assms by (simp add: resolveAndStore_def resolveKeys_append)

lemma store_calls_tx:
  "\<exists>ds. calls (snd (store e block data s)) = calls s @ DbBeginStateTransaction # ds
        \<and> (\<forall>c\<in>set ds. isTxCall c)"
  using store_calls [of e block data s] by (auto split: if_splits)

lemma resolveAndStore_calls:
  "\<exists>cs. calls (snd (resolveAndStore e block keys s)) = calls s @ cs
        \<and> (\<forall>c\<in>set cs. \<forall>u k. c = RpcGetOffChainData u k \<longrightarrow> k \<in> set keys)
        \<and> (keys = [] \<longrightarrow> filter isNetworkCall cs = [])"
proof -
  obtain r s' where r: "resolveKeys e keys [] s = (r, s')" by (cases "resolveKeys e keys [] s")
  from resolveKeys_calls [of e keys "[]" s] r
  obtain cs where cs: "calls s' = calls s @ cs"
    "\<forall>c\<in>set cs. c = EthGetCurrentDataCommittee
        \<or> (\<exists>u k. c = RpcGetOffChainData u k \<and> k \<in> set keys)"
    by auto
  from r have e0: "keys = [] \<longrightarrow> s' = s" by auto
  with cs(1) have c0: "keys = [] \<longrightarrow> cs = []" by auto
  show ?thesis
  proof (cases r)
    case (Inl err)
    with r have "resolveAndStore e block keys s = (Some err, s')"
      by (simp add: resolveAndStore_def)
    with cs(1) have "calls (snd (resolveAndStore e block keys s)) = calls s @ cs" by simp
    moreover from cs(2) have "\<forall>c\<in>set cs. \<forall>u k. c = RpcGetOffChainData u k \<longrightarrow> k \<in> set keys"
      by auto
    moreover from c0 have "keys = [] \<longrightarrow> filter isNetworkCall cs = []" by simp
    ultimately show ?thesis by blast
  next
    case (Inr data)
    with r have eq: "resolveAndStore e block keys s = store e block data s'"
      by (simp add: resolveAndStore_def)
    from store_calls_tx [of e block data s']
    obtain ds where ds: "calls (snd (store e block data s')) =
        calls s' @ DbBeginStateTransaction # ds" "\<forall>c\<in>set ds. isTxCall c"
      by blast
    let ?cs = "cs @ DbBeginStateTransaction # ds"
    from eq ds(1) cs(1) have "calls (snd (resolveAndStore e block keys s)) = calls s @ ?cs"
      by simp
    moreover from cs(2) ds(2)
    have "\<forall>c\<in>set ?cs. \<forall>u k. c = RpcGetOffChainData u k \<longrightarrow> k \<in> set keys"
      by auto
    moreover have "filter isNetworkCall ds = []"
      using ds(2) by (induction ds) (auto elim: isTxCall.elims)
    with c0 have "keys = [] \<longrightarrow> filter isNetworkCall ?cs = []" by simp
    ultimately show ?thesis by blast
  qed
qed

text \<open>
  C2. Let the event decode, let the key \<open>key\<close> be one of its missing keys, let the
  missing keys before it resolve, and let the resolution of \<open>key\<close> fail with \<open>err\<close>.
  Then the handling of the event fails with \<open>err\<close> in the state that resolution left,
  the database is unchanged, and no call of a storage transaction (begin, write, commit
  or rollback) has been made.
\<close>

theorem handle_fails_before_storage:
  assumes "parseEvent e event = Inr (block, keys)"
    and "filter (\<lambda>k. offchain_data (db s) k = None) keys = pre @ key # post"
    and "resolveKeys e pre [] (s\<lparr>calls := calls s @ map DbExists keys\<rparr>) = (Inr data, s2)"
    and "resolve e key s2 = (Inl err, s3)"
  shows "handleSequenceBatches e event s = (Some err, s3)
         \<and> db s3 = db s
         \<and> filter isTxCall (calls s3) = filter isTxCall (calls s)"
proof -
  let ?s1 = "s\<lparr>calls := calls s @ map DbExists keys\<rparr>"
  have r: "handleSequenceBatches e event s = (Some err, s3)"
    using handle_eq [OF assms(1), of s] assms(2) resolveAndStore_fails_at [OF assms(3,4)]
    by simp
  have "db s2 = db ?s1" using resolveKeys_db [of e pre "[]" ?s1] assms(3) by simp
  moreover have "db s3 = db s2" using resolve_db [of e key s2] assms(4) by simp
  ultimately have d: "db s3 = db s" by simp
  have "filter isTxCall (calls s2) = filter isTxCall (calls ?s1)"
    using resolveKeys_tx [of e pre "[]" ?s1] assms(3) by simp
  moreover have "filter isTxCall (calls s3) = filter isTxCall (calls s2)"
    using resolveKeys_tx [of e "[key]" "[]" s2] assms(4) by simp
  ultimately have "filter isTxCall (calls s3) = filter isTxCall (calls s)"
    by (simp add: filter_tx_probes)
  with r d show ?thesis by simp
qed

lemma exNoData_resolve:
  "fst (resolve exEnvNoData 6 (exState\<lparr>calls := calls exState @ map DbExists [5, 6]\<rparr>)) =
     Inl (NoDataFoundForKey 6)"
proof -
  let ?s1 = "exState\<lparr>calls := calls exState @ map DbExists [5, 6]\<rparr>"
  have "refreshIfEmpty exEnvNoData ?s1 = (None, ?s1)"
    by (simp add: refreshIfEmpty_def exState_def)
  from resolve_loop_eq [OF this, of 6] resolveLoop_all_fail [of _ exEnvNoData _ 6]
    exEnvNoData_fails
  show ?thesis by simp
qed

theorem handle_fails_before_storage_witness:
  "parseEvent exEnvNoData exEvent = Inr (101, [5, 6]) \<and>
   fst (handleSequenceBatches exEnvNoData exEvent exState) = Some (NoDataFoundForKey 6) \<and>
   db (snd (handleSequenceBatches exEnvNoData exEvent exState)) = db exState \<and>
   filter isTxCall (calls (snd (handleSequenceBatches exEnvNoData exEvent exState))) = []"
proof -
  let ?s1 = "exState\<lparr>calls := calls exState @ map DbExists [5, 6]\<rparr>"
  have h1: "parseEvent exEnvNoData exEvent = Inr (101, [5, 6])"
    by (simp add: parseEvent_def exEnvNoData_def exEnv_def exEvent_def)
  have h2: "filter (\<lambda>k. offchain_data (db exState) k = None) [5, 6] = [] @ 6 # []"
    by (simp add: exState_def)
  have h3: "resolveKeys exEnvNoData [] [] ?s1 = (Inr [], ?s1)" by simp
  have h4: "resolve exEnvNoData 6 ?s1 = (Inl (NoDataFoundForKey 6), snd (resolve exEnvNoData 6 ?s1))"
    using exNoData_resolve by (metis prod.collapse)
  have c: "filter isTxCall (calls exState) = []" by (simp add: exState_def)
  from handle_fails_before_storage [OF h1 h2 h3 h4] h1 c show ?thesis by simp
qed

text \<open>
  C4. When the event decodes, every one of its keys is probed, in order and before
  anything else; resolution and storing then run on exactly the keys whose probe found
  nothing. Every query that the handling sends to a committee member is for a key of
  the event that is absent from storage, and when every key of the event is present the
  handling makes no network call at all.
\<close>

theorem handle_resolves_only_missing:
  assumes "parseEvent e event = Inr (block, keys)"
  shows "handleSequenceBatches e event s =
           resolveAndStore e block (filter (\<lambda>k. offchain_data (db s) k = None) keys)
             (s\<lparr>calls := calls s @ map DbExists keys\<rparr>)
         \<and> (\<exists>cs. calls (snd (handleSequenceBatches e event s)) =
                   calls s @ map DbExists keys @ cs
               \<and> (\<forall>c\<in>set cs. \<forall>u k. c = RpcGetOffChainData u k \<longrightarrow>
                     k \<in> set keys \<and> offchain_data (db s) k = None)
               \<and> ((\<forall>k\<in>set keys. offchain_data (db s) k \<noteq> None) \<longrightarrow>
                     filter isNetworkCall cs = []))"
proof -
  let ?missing = "filter (\<lambda>k. offchain_data (db s) k = None) keys"
  let ?s1 = "s\<lparr>calls := calls s @ map DbExists keys\<rparr>"
  note eq = handle_eq [OF assms, of s]
  from resolveAndStore_calls [of e block ?missing ?s1]
  obtain cs where cs: "calls (snd (resolveAndStore e block ?missing ?s1)) = calls ?s1 @ cs"
    "\<forall>c\<in>set cs. \<forall>u k. c = RpcGetOffChainData u k \<longrightarrow> k \<in> set ?missing"
    "?missing = [] \<longrightarrow> filter isNetworkCall cs = []"
    by blast
  from cs(1) eq have 1: "calls (snd (handleSequenceBatches e event s)) =
      calls s @ map DbExists keys @ cs"
    by simp
  from cs(2) have 2: "\<forall>c\<in>set cs. \<forall>u k. c = RpcGetOffChainData u k \<longrightarrow>
      k \<in> set keys \<and> offchain_data (db s) k = None"
    by simp
  have "?missing = []" if "\<forall>k\<in>set keys. offchain_data (db s) k \<noteq> None"
    using that by (simp add: filter_empty_conv)
  with cs(3) have 3: "(\<forall>k\<in>set keys. offchain_data (db s) k \<noteq> None) \<longrightarrow>
      filter isNetworkCall cs = []"
    by blast
  from eq 1 2 3 show ?thesis by blast
qed

theorem handle_resolves_only_missing_witness:
  "parseEvent exEnv exEvent = Inr (101, [5, 6]) \<and>
   handleSequenceBatches exEnv exEvent exState =
     resolveAndStore exEnv 101 [6] (exState\<lparr>calls := [DbExists 5, DbExists 6]\<rparr>)"
proof -
  have h: "parseEvent exEnv exEvent = Inr (101, [5, 6])"
    by (simp add: parseEvent_def exEnv_def exEvent_def)
  have f: "filter (\<lambda>k. offchain_data (db exState) k = None) [5, 6] = [6]"
    "calls exState @ map DbExists [5, 6] = [DbExists 5, DbExists 6]"
    by (simp_all add: exState_def)
  from handle_resolves_only_missing [OF h, of exState]
  have "handleSequenceBatches exEnv exEvent exState =
     resolveAndStore exEnv 101 (filter (\<lambda>k. offchain_data (db exState) k = None) [5, 6])
       (exState\<lparr>calls := calls exState @ map DbExists [5, 6]\<rparr>)"
    by (rule conjunct1)
  with h show ?thesis unfolding f by simp
qed

text \<open>
  C10. When the event decodes and every key of it is already in storage, the handling
  goes to \<^verbatim>\<open>store\<close> with an empty payload list all the same: a transaction is begun
  after the probes, and when no storage operation fails the empty payload set and the
  event's block number are written and committed, so that \<^verbatim>\<open>lastProcessedBlock\<close> is
  the event's block number and the payload table is what it was.
\<close>

theorem handle_known_batch_advances:
  assumes "parseEvent e event = Inr (block, keys)"
    and "\<forall>k\<in>set keys. offchain_data (db s) k \<noteq> None"
  shows "handleSequenceBatches e event s =
           store e block [] (s\<lparr>calls := calls s @ map DbExists keys\<rparr>)
         \<and> (\<exists>cs. calls (snd (handleSequenceBatches e event s)) =
                   calls s @ map DbExists keys @ DbBeginStateTransaction # cs)
         \<and> ((\<forall>i<4. dbFault e (now s + length keys + i) = None) \<longrightarrow>
               fst (handleSequenceBatches e event s) = None
               \<and> calls (snd (handleSequenceBatches e event s)) =
                   calls s @ map DbExists keys @
                     [DbBeginStateTransaction, DbStoreOffChainData [],
                      DbStoreLastProcessedBlock block, DbCommit]
               \<and> db (snd (handleSequenceBatches e event s)) =
                   (db s)\<lparr>last_processed_block := block\<rparr>)"
proof -
  let ?s1 = "s\<lparr>calls := calls s @ map DbExists keys\<rparr>"
  have m: "filter (\<lambda>k. offchain_data (db s) k = None) keys = []"
    using assms(2) by (simp add: filter_empty_conv)
  have eq: "handleSequenceBatches e event s = store e block [] ?s1"
    using handle_eq [OF assms(1), of s] m by (simp add: resolveAndStore_def)
  have n: "now ?s1 = now s + length keys" by (simp add: now_def)
  from store_calls_tx [of e block "[]" ?s1] eq
  have 2: "\<exists>cs. calls (snd (handleSequenceBatches e event s)) =
      calls s @ map DbExists keys @ DbBeginStateTransaction # cs"
    by auto
  have 3: "fst (handleSequenceBatches e event s) = None
      \<and> calls (snd (handleSequenceBatches e event s)) =
          calls s @ map DbExists keys @
            [DbBeginStateTransaction, DbStoreOffChainData [],
             DbStoreLastProcessedBlock block, DbCommit]
      \<and> db (snd (handleSequenceBatches e event s)) = (db s)\<lparr>last_processed_block := block\<rparr>"
    if ok: "\<forall>i<4. dbFault e (now s + length keys + i) = None"
  proof -
    from ok have f: "dbFault e (now ?s1) = None" "dbFault e (now ?s1 + 1) = None"
      "dbFault e (now ?s1 + 2) = None" "dbFault e (now ?s1 + 3) = None"
      unfolding n by (simp_all add: numeral_eq_Suc less_Suc_eq)
    have r: "fst (store e block [] ?s1) = None"
      unfolding store_result using f by simp
    have c: "calls (snd (store e block [] ?s1)) = calls ?s1 @
        [DbBeginStateTransaction, DbStoreOffChainData [], DbStoreLastProcessedBlock block, DbCommit]"
      unfolding store_calls using f by simp
    have d: "db (snd (store e block [] ?s1)) = (db s)\<lparr>last_processed_block := block\<rparr>"
      unfolding store_db r by (simp add: applyTx_def)
    from r c d eq show ?thesis by simp
  qed
  from eq 2 3 show ?thesis by blast
qed

theorem handle_known_batch_advances_witness:
  "parseEvent exEnvKnown exEvent = Inr (101, [5]) \<and>
   fst (handleSequenceBatches exEnvKnown exEvent exState) = None \<and>
   calls (snd (handleSequenceBatches exEnvKnown exEvent exState)) =
     [DbExists 5, DbBeginStateTransaction, DbStoreOffChainData [],
      DbStoreLastProcessedBlock 101, DbCommit] \<and>
   last_processed_block (db (snd (handleSequenceBatches exEnvKnown exEvent exState))) = 101"
proof -
  have h1: "parseEvent exEnvKnown exEvent = Inr (101, [5])"
    by (simp add: parseEvent_def exEnvKnown_def exEnv_def exEvent_def)
  have h2: "\<forall>k\<in>set [5]. offchain_data (db exState) k \<noteq> None"
    by (simp add: exState_def)
  have ok: "\<forall>i<4. dbFault exEnvKnown (now exState + length [5::hash] + i) = None"
    by (simp add: exEnvKnown_def exEnv_def)
  from handle_known_batch_advances [OF h1 h2]
  have "(\<forall>i<4. dbFault exEnvKnown (now exState + length [5::hash] + i) = None) \<longrightarrow>
      fst (handleSequenceBatches exEnvKnown exEvent exState) = None
      \<and> calls (snd (handleSequenceBatches exEnvKnown exEvent exState)) =
          calls exState @ map DbExists [5] @
            [DbBeginStateTransaction, DbStoreOffChainData [],
             DbStoreLastProcessedBlock 101, DbCommit]
      \<and> db (snd (handleSequenceBatches exEnvKnown exEvent exState)) =
          (db exState)\<lparr>last_processed_block := 101\<rparr>"
    by (rule conjunct2 [OF conjunct2])
  with ok h1 show ?thesis by (simp add: exState_def)
qed

end
